theory Spec2Isabelle
  imports Complex_Main
begin

section \<open>The value ring of the collector\<close>

text \<open>
  A shallow embedding of \<^verbatim>\<open>value_ring.go\<close>: the ring buffer of timestamped values
  from which the collectors compute rates of change.

  Conventions of the model:
  \<^item> \<^verbatim>\<open>bitflow.Value\<close> is a float64. It is modelled by exact rationals extended with the
    IEEE special values, so that a division by zero yields an infinity or NaN as in Go and
    not HOL's \<open>x / 0 = 0\<close>. Rounding and the sign of zero are not modelled.
  \<^item> \<^verbatim>\<open>time.Time\<close> is an integer count of nanoseconds, \<^verbatim>\<open>time.Duration\<close> an integer
    count of nanoseconds; \<^verbatim>\<open>Time.Sub\<close> saturates at the int64 bounds as in Go.
  \<^item> \<^verbatim>\<open>time.Now()\<close> is a parameter of \<open>FlushHead\<close> and of the operations that call it.
  \<^item> A Go panic is the \<open>Inl\<close> branch of a result.
  \<^item> The mutex is omitted: the model is sequential.
\<close>

subsection \<open>bitflow.Value\<close>

datatype Value = Num rat | PosInf | NegInf | NaN

fun value_neg :: "Value \<Rightarrow> Value" where
  "value_neg (Num a) = Num (- a)"
| "value_neg PosInf = NegInf"
| "value_neg NegInf = PosInf"
| "value_neg NaN = NaN"

fun value_add :: "Value \<Rightarrow> Value \<Rightarrow> Value" where
  "value_add (Num a) (Num b) = Num (a + b)"
| "value_add NaN _ = NaN"
| "value_add _ NaN = NaN"
| "value_add PosInf NegInf = NaN"
| "value_add NegInf PosInf = NaN"
| "value_add PosInf _ = PosInf"
| "value_add NegInf _ = NegInf"
| "value_add _ PosInf = PosInf"
| "value_add _ NegInf = NegInf"

definition value_sub :: "Value \<Rightarrow> Value \<Rightarrow> Value" where
  "value_sub a b = value_add a (value_neg b)"

text \<open>Float division: a zero divisor gives an infinity, or NaN for \<open>0 / 0\<close>.\<close>

fun value_div :: "Value \<Rightarrow> Value \<Rightarrow> Value" where
  "value_div NaN _ = NaN"
| "value_div _ NaN = NaN"
| "value_div (Num a) (Num b) =
     (if b = 0 then (if a = 0 then NaN else if 0 < a then PosInf else NegInf)
      else Num (a / b))"
| "value_div (Num a) PosInf = Num 0"
| "value_div (Num a) NegInf = Num 0"
| "value_div PosInf (Num b) = (if b < 0 then NegInf else PosInf)"
| "value_div NegInf (Num b) = (if b < 0 then PosInf else NegInf)"
| "value_div PosInf _ = NaN"
| "value_div NegInf _ = NaN"

text \<open>The comparison \<^verbatim>\<open>val < 0\<close>; it is false for NaN.\<close>

fun value_negative :: "Value \<Rightarrow> bool" where
  "value_negative (Num a) = (a < 0)"
| "value_negative NegInf = True"
| "value_negative PosInf = False"
| "value_negative NaN = False"

subsection \<open>time.Time and time.Duration\<close>

type_synonym Time = int
type_synonym Duration = int

definition minDuration :: Duration where
  "minDuration = - 9223372036854775808"

definition maxDuration :: Duration where
  "maxDuration = 9223372036854775807"

definition Time_Add :: "Time \<Rightarrow> Duration \<Rightarrow> Time" where
  "Time_Add t d = t + d"

definition Time_Sub :: "Time \<Rightarrow> Time \<Rightarrow> Duration" where
  "Time_Sub t u =
     (if t - u < minDuration then minDuration
      else if maxDuration < t - u then maxDuration
      else t - u)"

definition Time_Before :: "Time \<Rightarrow> Time \<Rightarrow> bool" where
  "Time_Before t u = (t < u)"

definition Second :: Duration where
  "Second = 1000000000"

text \<open>\<^verbatim>\<open>Duration.Seconds()\<close>, converted to \<^verbatim>\<open>bitflow.Value\<close>.\<close>

definition Seconds :: "Duration \<Rightarrow> Value" where
  "Seconds d = Num (of_int d / 1000000000)"

subsection \<open>LogbackValue and StoredValue\<close>

datatype panic = IndexOutOfRange | NilPointerDereference | MakeSliceLenOutOfRange

text \<open>
  The dynamic type of a non-nil \<^verbatim>\<open>LogbackValue\<close>: a \<^verbatim>\<open>StoredValue\<close>, a pointer to one
  (which may be nil), or a value of another implementation of the interface. A
  \<^verbatim>\<open>LogbackValue\<close> that may be the nil interface is an \<open>option\<close>.
\<close>

datatype 'a LogbackValue =
    StoredValue Value
  | StoredValuePtr "Value option"
  | Foreign 'a

text \<open>
  The methods of the other implementations of \<^verbatim>\<open>LogbackValue\<close> are not part of this
  file; they are parameters of the model.
\<close>

record 'a ForeignMethods =
  foreignDiffValue :: "'a \<Rightarrow> 'a LogbackValue option \<Rightarrow> Duration \<Rightarrow> panic + Value"
  foreignAddValue :: "'a \<Rightarrow> 'a LogbackValue option \<Rightarrow> panic + 'a LogbackValue"

fun StoredValue_DiffValue ::
  "Value \<Rightarrow> 'a LogbackValue option \<Rightarrow> Duration \<Rightarrow> panic + Value" where
  "StoredValue_DiffValue v (Some (StoredValue previous)) interval =
     Inr (value_div (value_sub v previous) (Seconds interval))"
| "StoredValue_DiffValue v (Some (StoredValuePtr (Some previous))) interval =
     Inr (value_div (value_sub v previous) (Seconds interval))"
| "StoredValue_DiffValue v (Some (StoredValuePtr None)) interval =
     Inl NilPointerDereference"
| "StoredValue_DiffValue v _ interval = Inr (Num 0)"

fun StoredValue_AddValue ::
  "Value \<Rightarrow> 'a LogbackValue option \<Rightarrow> panic + 'a LogbackValue" where
  "StoredValue_AddValue v (Some (StoredValue other)) = Inr (StoredValue (value_add v other))"
| "StoredValue_AddValue v (Some (StoredValuePtr (Some other))) =
     Inr (StoredValue (value_add v other))"
| "StoredValue_AddValue v (Some (StoredValuePtr None)) = Inl NilPointerDereference"
| "StoredValue_AddValue v _ = Inr (StoredValue (Num 0))"

text \<open>
  Method calls through the interface. The methods of \<^verbatim>\<open>StoredValue\<close> have value
  receivers, so a call through a nil \<^verbatim>\<open>*StoredValue\<close> panics.
\<close>

fun DiffValue ::
  "'a ForeignMethods \<Rightarrow> 'a LogbackValue \<Rightarrow> 'a LogbackValue option \<Rightarrow> Duration
     \<Rightarrow> panic + Value" where
  "DiffValue F (StoredValue v) previous interval = StoredValue_DiffValue v previous interval"
| "DiffValue F (StoredValuePtr (Some v)) previous interval =
     StoredValue_DiffValue v previous interval"
| "DiffValue F (StoredValuePtr None) previous interval = Inl NilPointerDereference"
| "DiffValue F (Foreign x) previous interval = foreignDiffValue F x previous interval"

fun AddValue ::
  "'a ForeignMethods \<Rightarrow> 'a LogbackValue \<Rightarrow> 'a LogbackValue option
     \<Rightarrow> panic + 'a LogbackValue" where
  "AddValue F (StoredValue v) incoming = StoredValue_AddValue v incoming"
| "AddValue F (StoredValuePtr (Some v)) incoming = StoredValue_AddValue v incoming"
| "AddValue F (StoredValuePtr None) incoming = Inl NilPointerDereference"
| "AddValue F (Foreign x) incoming = foreignAddValue F x incoming"

subsection \<open>TimedValue, ValueRing and its factory\<close>

record 'a TimedValue =
  Time :: Time
  val :: "'a LogbackValue option"

text \<open>The zero value of \<^verbatim>\<open>TimedValue\<close>: the zero \<^verbatim>\<open>time.Time\<close> and a nil value.\<close>

definition zeroTimedValue :: "'a TimedValue" where
  "zeroTimedValue = \<lparr>Time = 0, val = None\<rparr>"

record 'a ValueRing =
  interval :: Duration
  ring_values :: "'a TimedValue list"
  head :: int
  aggregator :: "'a LogbackValue option"
  previousDiff :: Value

record ValueRingFactory =
  Length :: int
  Interval :: Duration

definition NewValueRing :: "ValueRingFactory \<Rightarrow> panic + 'a ValueRing" where
  "NewValueRing factory =
     (if Length factory < 0 then Inl MakeSliceLenOutOfRange
      else Inr \<lparr>interval = Interval factory,
                ring_values = replicate (nat (Length factory)) zeroTimedValue,
                head = 0,
                aggregator = None,
                previousDiff = Num 0\<rparr>)"

text \<open>\<^verbatim>\<open>len(ring.values)\<close> and the indexing \<^verbatim>\<open>ring.values[i]\<close>, which panics out of range.\<close>

definition len :: "'a list \<Rightarrow> int" where
  "len xs = int (length xs)"

definition index :: "'a list \<Rightarrow> int \<Rightarrow> panic + 'a" where
  "index xs i = (if 0 \<le> i \<and> i < len xs then Inr (xs ! nat i) else Inl IndexOutOfRange)"

subsection \<open>Writing\<close>

definition AddToHead ::
  "'a ForeignMethods \<Rightarrow> 'a LogbackValue option \<Rightarrow> 'a ValueRing \<Rightarrow> panic + 'a ValueRing" where
  "AddToHead F v ring =
     (case aggregator ring of
        None \<Rightarrow> Inr (ring\<lparr>aggregator := v\<rparr>)
      | Some a \<Rightarrow>
          (case AddValue F a v of
             Inl e \<Rightarrow> Inl e
           | Inr s \<Rightarrow> Inr (ring\<lparr>aggregator := Some s\<rparr>)))"

definition FlushHead :: "Time \<Rightarrow> 'a ValueRing \<Rightarrow> panic + 'a ValueRing" where
  "FlushHead now ring =
     (if 0 \<le> head ring \<and> head ring < len (ring_values ring)
      then Inr (ring\<lparr>ring_values :=
                        (ring_values ring)[nat (head ring) :=
                           \<lparr>Time = now, val = aggregator ring\<rparr>],
                     head := (if head ring \<ge> len (ring_values ring) - 1 then 0
                              else head ring + 1),
                     aggregator := None\<rparr>)
      else Inl IndexOutOfRange)"

definition Add ::
  "'a ForeignMethods \<Rightarrow> Time \<Rightarrow> 'a LogbackValue option \<Rightarrow> 'a ValueRing
     \<Rightarrow> panic + 'a ValueRing" where
  "Add F now v ring =
     (case AddToHead F v ring of
        Inl e \<Rightarrow> Inl e
      | Inr ring' \<Rightarrow> FlushHead now ring')"

subsection \<open>Reading\<close>

definition getHead :: "'a ValueRing \<Rightarrow> panic + 'a TimedValue" where
  "getHead ring =
     (let headIndex = (if head ring \<le> 0 then len (ring_values ring) - 1 else head ring - 1)
      in index (ring_values ring) headIndex)"

definition Increment ::
  "'a ForeignMethods \<Rightarrow> Time \<Rightarrow> 'a LogbackValue option \<Rightarrow> 'a ValueRing
     \<Rightarrow> panic + 'a ValueRing" where
  "Increment F now v ring =
     (case getHead ring of
        Inl e \<Rightarrow> Inl e
      | Inr h \<Rightarrow>
          (case val h of
             None \<Rightarrow> Add F now v ring
           | Some cur \<Rightarrow>
               (case AddValue F cur v of
                  Inl e \<Rightarrow> Inl e
                | Inr s \<Rightarrow> Add F now (Some s) ring)))"

text \<open>
  The closure \<^verbatim>\<open>walkRing\<close> of \<^verbatim>\<open>get\<close>: it returns whether the walk goes on, and the
  value of the named result \<^verbatim>\<open>result\<close> after the call.
\<close>

definition walkRing ::
  "'a TimedValue list \<Rightarrow> Time \<Rightarrow> int \<Rightarrow> 'a TimedValue \<Rightarrow> panic + (bool \<times> 'a TimedValue)" where
  "walkRing vs beforeT i result =
     (case index vs i of
        Inl e \<Rightarrow> Inl e
      | Inr tv \<Rightarrow>
          (if val tv = None then Inr (False, result)
           else if Time_Before (Time tv) beforeT then Inr (False, tv)
           else Inr (True, tv)))"

text \<open>
  The loops \<^verbatim>\<open>for i := ...; i >= lo; i--\<close> of \<^verbatim>\<open>get\<close>. The boolean of the result is
  false when the body returned from \<^verbatim>\<open>get\<close>, true when the loop ran to its end.
\<close>

function get_loop ::
  "'a TimedValue list \<Rightarrow> Time \<Rightarrow> int \<Rightarrow> int \<Rightarrow> 'a TimedValue
     \<Rightarrow> panic + (bool \<times> 'a TimedValue)" where
  "get_loop vs beforeT i lo result =
     (if i \<ge> lo
      then (case walkRing vs beforeT i result of
              Inl e \<Rightarrow> Inl e
            | Inr (go_on, result') \<Rightarrow>
                (if \<not> go_on then Inr (False, result')
                 else get_loop vs beforeT (i - 1) lo result'))
      else Inr (True, result))"
  by pat_completeness auto
termination
  by (relation "measure (\<lambda>(vs, beforeT, i, lo, result). nat (i - lo + 1))") auto

definition get :: "'a ValueRing \<Rightarrow> Time \<Rightarrow> panic + 'a TimedValue" where
  "get ring beforeT =
     (case get_loop (ring_values ring) beforeT (head ring - 1) 0 zeroTimedValue of
        Inl e \<Rightarrow> Inl e
      | Inr (finished, result) \<Rightarrow>
          (if \<not> finished then Inr result
           else (case get_loop (ring_values ring) beforeT (len (ring_values ring) - 1)
                        (head ring) result of
                   Inl e \<Rightarrow> Inl e
                 | Inr (finished', result') \<Rightarrow> Inr result')))"

definition getDiffInterval ::
  "'a ForeignMethods \<Rightarrow> 'a ValueRing \<Rightarrow> Duration \<Rightarrow> panic + Value" where
  "getDiffInterval F ring beforeD =
     (case getHead ring of
        Inl e \<Rightarrow> Inl e
      | Inr h \<Rightarrow>
          (case val h of
             None \<Rightarrow> Inr (Num 0)
           | Some hv \<Rightarrow>
               (let beforeTime = Time_Add (Time h) (- beforeD) in
                case get ring beforeTime of
                  Inl e \<Rightarrow> Inl e
                | Inr previous \<Rightarrow>
                    (if val previous = None then Inr (Num 0)
                     else let interval = Time_Sub (Time h) (Time previous) in
                          if interval = 0 then Inr (Num 0)
                          else DiffValue F hv (val previous) interval))))"

text \<open>
  The loops of \<^verbatim>\<open>flush\<close>, with the same convention: the boolean is false when the body
  returned from \<^verbatim>\<open>flush\<close>.
\<close>

function flush_loop ::
  "'a TimedValue list \<Rightarrow> int \<Rightarrow> int \<Rightarrow> panic + (bool \<times> 'a TimedValue list)" where
  "flush_loop vs i lo =
     (if i \<ge> lo
      then (case index vs i of
              Inl e \<Rightarrow> Inl e
            | Inr tv \<Rightarrow>
                (if val tv = None then Inr (False, vs)
                 else flush_loop (vs[nat i := tv\<lparr>val := None\<rparr>]) (i - 1) lo))
      else Inr (True, vs))"
  by pat_completeness auto
termination
  by (relation "measure (\<lambda>(vs, i, lo). nat (i - lo + 1))") auto

definition flush :: "int \<Rightarrow> 'a ValueRing \<Rightarrow> panic + 'a ValueRing" where
  "flush start ring =
     (let start' = (if start < 0 then start + len (ring_values ring) else start) in
      case flush_loop (ring_values ring) start' 0 of
        Inl e \<Rightarrow> Inl e
      | Inr (finished, vs) \<Rightarrow>
          (if \<not> finished then Inr (ring\<lparr>ring_values := vs\<rparr>)
           else (case flush_loop vs (len vs - 1) (head ring) of
                   Inl e \<Rightarrow> Inl e
                 | Inr (finished', vs') \<Rightarrow> Inr (ring\<lparr>ring_values := vs'\<rparr>))))"

definition GetDiff :: "'a ForeignMethods \<Rightarrow> 'a ValueRing \<Rightarrow> panic + (Value \<times> 'a ValueRing)" where
  "GetDiff F ring =
     (case getDiffInterval F ring (interval ring) of
        Inl e \<Rightarrow> Inl e
      | Inr v \<Rightarrow>
          (if value_negative v
           then (case flush (head ring - 2) ring of
                   Inl e \<Rightarrow> Inl e
                 | Inr ring' \<Rightarrow> Inr (previousDiff ring, ring'))
           else Inr (v, ring\<lparr>previousDiff := v\<rparr>)))"

definition GetHead :: "'a ValueRing \<Rightarrow> panic + ('a LogbackValue option \<times> 'a ValueRing)" where
  "GetHead ring =
     (case getHead ring of
        Inl e \<Rightarrow> Inl e
      | Inr h \<Rightarrow> Inr (val h, ring))"

subsection \<open>Sequences of calls\<close>

text \<open>
  A client's sequence of calls stops at the first panic. \<open>AddAll\<close> is a sequence of
  calls of \<^verbatim>\<open>Add\<close>, one for each pair of the time of the call and the value added.
\<close>

definition andThen :: "panic + 'a \<Rightarrow> ('a \<Rightarrow> panic + 'b) \<Rightarrow> panic + 'b" where
  "andThen m f = (case m of Inl e \<Rightarrow> Inl e | Inr x \<Rightarrow> f x)"

fun AddAll ::
  "'a ForeignMethods \<Rightarrow> (Time \<times> 'a LogbackValue option) list \<Rightarrow> 'a ValueRing
     \<Rightarrow> panic + 'a ValueRing" where
  "AddAll F [] ring = Inr ring"
| "AddAll F ((now, v) # rest) ring =
     (case Add F now v ring of
        Inl e \<Rightarrow> Inl e
      | Inr ring' \<Rightarrow> AddAll F rest ring')"

text \<open>A program with no implementation of \<^verbatim>\<open>LogbackValue\<close> but \<^verbatim>\<open>StoredValue\<close>.\<close>

definition noForeign :: "unit ForeignMethods" where
  "noForeign =
     \<lparr>foreignDiffValue = (\<lambda>x previous d. Inr (Num 0)),
      foreignAddValue = (\<lambda>x incoming. Inr (Foreign x))\<rparr>"

text \<open>The scalar \<open>x\<close> as the argument of \<^verbatim>\<open>ring.AddValue(x)\<close>.\<close>

definition scalar :: "rat \<Rightarrow> 'a LogbackValue option" where
  "scalar x = Some (StoredValue (Num x))"

text \<open>
  The \<^verbatim>\<open>TimedValue\<close> that \<^verbatim>\<open>FlushHead\<close> stores for a call of \<^verbatim>\<open>Add\<close> at a given time
  on a ring with nothing accumulated.
\<close>

definition committed :: "Time \<times> 'a LogbackValue option \<Rightarrow> 'a TimedValue" where
  "committed s = \<lparr>Time = fst s, val = snd s\<rparr>"

text \<open>The head is an index of the storage.\<close>

definition ring_inv :: "'a ValueRing \<Rightarrow> bool" where
  "ring_inv ring = (0 \<le> head ring \<and> head ring < len (ring_values ring))"

text \<open>A scalar sample as the arguments of a call of \<^verbatim>\<open>Add\<close>: its time and value.\<close>

definition storedSample :: "Time \<times> Value \<Rightarrow> Time \<times> 'a LogbackValue option" where
  "storedSample s = (fst s, Some (StoredValue (snd s)))"

text \<open>
  The call of \<^verbatim>\<open>DiffValue\<close> that \<^verbatim>\<open>getDiffInterval\<close> makes, if it makes one: the
  receiver, the previous value and the interval. It follows \<^verbatim>\<open>getDiffInterval\<close> line
  by line and stops at the call.
\<close>

definition diffCall ::
  "'a ValueRing \<Rightarrow> Duration
     \<Rightarrow> panic + ('a LogbackValue \<times> 'a LogbackValue option \<times> Duration) option" where
  "diffCall ring beforeD =
     (case getHead ring of
        Inl e \<Rightarrow> Inl e
      | Inr h \<Rightarrow>
          (case val h of
             None \<Rightarrow> Inr None
           | Some hv \<Rightarrow>
               (let beforeTime = Time_Add (Time h) (- beforeD) in
                case get ring beforeTime of
                  Inl e \<Rightarrow> Inl e
                | Inr previous \<Rightarrow>
                    (if val previous = None then Inr None
                     else let interval = Time_Sub (Time h) (Time previous) in
                          if interval = 0 then Inr None
                          else Inr (Some (hv, val previous, interval))))))"

text \<open>The call \<^verbatim>\<open>ring.flush(ring.head - 2)\<close> that \<^verbatim>\<open>GetDiff\<close> makes on a negative diff.\<close>

definition flushOlder :: "'a ValueRing \<Rightarrow> panic + 'a ValueRing" where
  "flushOlder ring = flush (head ring - 2) ring"

text \<open>Two calls of \<^verbatim>\<open>GetDiff\<close> in a row; the result is the pair of the values returned.\<close>

definition GetDiffTwice :: "'a ForeignMethods \<Rightarrow> 'a ValueRing \<Rightarrow> panic + (Value \<times> Value)" where
  "GetDiffTwice F ring =
     andThen (GetDiff F ring) (\<lambda>(d, ring').
     andThen (GetDiff F ring') (\<lambda>(d', ring''). Inr (d, d')))"

subsection \<open>Scenarios\<close>

text \<open>
  A ring of capacity 3 and window 1s after the samples 10 at 0s and 20 at 1s: the state
  used to instantiate the general theorems.
\<close>

definition exampleRing :: "unit ValueRing" where
  "exampleRing =
     \<lparr>interval = Second,
      ring_values = [\<lparr>Time = 0, val = scalar 10\<rparr>, \<lparr>Time = Second, val = scalar 20\<rparr>,
                     zeroTimedValue],
      head = 2, aggregator = None, previousDiff = Num 0\<rparr>"

text \<open>A new ring of capacity 3 and window 1s, and the same ring after the sample 10 at 0s.\<close>

definition emptyRing :: "unit ValueRing" where
  "emptyRing =
     \<lparr>interval = Second,
      ring_values = [zeroTimedValue, zeroTimedValue, zeroTimedValue],
      head = 0, aggregator = None, previousDiff = Num 0\<rparr>"

definition oneSampleRing :: "unit ValueRing" where
  "oneSampleRing =
     \<lparr>interval = Second,
      ring_values = [\<lparr>Time = 0, val = scalar 10\<rparr>, zeroTimedValue, zeroTimedValue],
      head = 1, aggregator = None, previousDiff = Num 0\<rparr>"

text \<open>
  The overflow scenario on a new ring of capacity \<open>c\<close> and window 1s: the samples 10 at
  0s and 20 at 1s, a call of \<^verbatim>\<open>GetDiff\<close>, the sample 5 at 2s, a call of \<^verbatim>\<open>GetDiff\<close> and a
  call of \<^verbatim>\<open>GetHead\<close>. The result is the two diffs, the head and the final ring.
\<close>

definition overflowRun ::
  "int \<Rightarrow> panic + (Value \<times> Value \<times> unit LogbackValue option \<times> unit ValueRing)" where
  "overflowRun c =
     andThen (NewValueRing \<lparr>Length = c, Interval = Second\<rparr>) (\<lambda>r0.
     andThen (Add noForeign 0 (scalar 10) r0) (\<lambda>r1.
     andThen (Add noForeign Second (scalar 20) r1) (\<lambda>r2.
     andThen (GetDiff noForeign r2) (\<lambda>(d2, r2').
     andThen (Add noForeign (2 * Second) (scalar 5) r2') (\<lambda>r3.
     andThen (GetDiff noForeign r3) (\<lambda>(d3, r3').
     andThen (GetHead r3') (\<lambda>(h, r4).
     Inr (d2, d3, h, r4))))))))"

text \<open>The ring of the overflow scenario after the third sample, before the second diff.\<close>

definition overflowRing :: "int \<Rightarrow> panic + unit ValueRing" where
  "overflowRing c =
     andThen (NewValueRing \<lparr>Length = c, Interval = Second\<rparr>) (\<lambda>r0.
     andThen (AddAll noForeign [(0, scalar 10), (Second, scalar 20)] r0) (\<lambda>r2.
     andThen (GetDiff noForeign r2) (\<lambda>(d2, r2').
     Add noForeign (2 * Second) (scalar 5) r2')))"

text \<open>
  From there: two calls of \<^verbatim>\<open>GetDiff\<close>, the sample 1 at 3s and a third call of
  \<^verbatim>\<open>GetDiff\<close>. The result is the three diffs.
\<close>

definition clobberRun :: "int \<Rightarrow> panic + (Value \<times> Value \<times> Value)" where
  "clobberRun c =
     andThen (overflowRing c) (\<lambda>r3.
     andThen (GetDiff noForeign r3) (\<lambda>(d3, r3').
     andThen (GetDiff noForeign r3') (\<lambda>(d4, r4).
     andThen (Add noForeign (3 * Second) (scalar 1) r4) (\<lambda>r5.
     andThen (GetDiff noForeign r5) (\<lambda>(d5, r5').
     Inr (d3, d4, d5))))))"

text \<open>
  The short-history scenario on a new ring of capacity \<open>c\<close> and window 2s: the samples
  100 at 0s and 150 at 1s, a call of \<^verbatim>\<open>GetDiff\<close> (no sample is older than the head minus
  the window), the sample 5 at 2s and a second call of \<^verbatim>\<open>GetDiff\<close>. The result is the two
  diffs.
\<close>

definition shortHistoryRun :: "int \<Rightarrow> panic + (Value \<times> Value)" where
  "shortHistoryRun c =
     andThen (NewValueRing \<lparr>Length = c, Interval = 2 * Second\<rparr>) (\<lambda>r0.
     andThen (AddAll noForeign [(0, scalar 100), (Second, scalar 150)] r0) (\<lambda>r2.
     andThen (GetDiff noForeign r2) (\<lambda>(d2, r2').
     andThen (Add noForeign (2 * Second) (scalar 5) r2') (\<lambda>r3.
     andThen (GetDiff noForeign r3) (\<lambda>(d3, r3').
     Inr (d2, d3))))))"

section \<open>Properties\<close>

subsection \<open>Unfolding the loops\<close>

declare get_loop.simps [simp del] flush_loop.simps [simp del]

lemma get_loop_end [simp]: "i < lo \<Longrightarrow> get_loop vs b i lo res = Inr (True, res)"
  by (simp add: get_loop.simps)

lemma get_loop_step:
  "lo \<le> i \<Longrightarrow> get_loop vs b i lo res =
     (case walkRing vs b i res of
        Inl e \<Rightarrow> Inl e
      | Inr (go_on, res') \<Rightarrow>
          (if \<not> go_on then Inr (False, res') else get_loop vs b (i - 1) lo res'))"
  by (subst get_loop.simps) simp

lemma flush_loop_end [simp]: "i < lo \<Longrightarrow> flush_loop vs i lo = Inr (True, vs)"
  by (simp add: flush_loop.simps)

lemma flush_loop_step:
  "lo \<le> i \<Longrightarrow> flush_loop vs i lo =
     (case index vs i of
        Inl e \<Rightarrow> Inl e
      | Inr tv \<Rightarrow>
          (if val tv = None then Inr (False, vs)
           else flush_loop (vs[nat i := tv\<lparr>val := None\<rparr>]) (i - 1) lo))"
  by (subst flush_loop.simps) simp

lemmas ring_defs = NewValueRing_def Add_def AddToHead_def FlushHead_def getHead_def GetHead_def
  get_def getDiffInterval_def flush_def GetDiff_def walkRing_def index_def len_def andThen_def
  zeroTimedValue_def Time_Add_def Time_Sub_def Time_Before_def Seconds_def Second_def
  minDuration_def maxDuration_def value_sub_def scalar_def

subsection \<open>A new ring after fewer calls of Add than its capacity\<close>

lemma AddAll_snoc:
  "AddAll F (xs @ [(t, v)]) ring = andThen (AddAll F xs ring) (Add F t v)"
proof (induction xs arbitrary: ring)
  case Nil
  show ?case by (simp add: andThen_def split: sum.splits)
next
  case (Cons x xs)
  obtain t' v' where x: "x = (t', v')" by (cases x)
  show ?case
    by (cases "Add F t' v' ring") (simp_all add: x Cons.IH andThen_def)
qed

lemma update_first_zero:
  "0 < k \<Longrightarrow> (ys @ replicate k z)[length ys := a] = ys @ a # replicate (k - 1) z"
  by (cases k) (simp_all add: list_update_append)

lemma Add_fresh_shape:
  assumes "int (length ys) + 1 < C"
  shows "Add F t v \<lparr>interval = w, ring_values = ys @ replicate (nat C - length ys) zeroTimedValue,
                      head = int (length ys), aggregator = None, previousDiff = p\<rparr>
         = Inr \<lparr>interval = w,
                ring_values = (ys @ [committed (t, v)])
                   @ replicate (nat C - length (ys @ [committed (t, v)])) zeroTimedValue,
                head = int (length (ys @ [committed (t, v)])), aggregator = None,
                previousDiff = p\<rparr>"
proof -
  have k: "0 < nat C - length ys" using assms by linarith
  have l: "int (length ys) < len (ys @ replicate (nat C - length ys) zeroTimedValue)"
    using assms by (simp add: len_def)
  have n: "\<not> int (length ys) \<ge> len (ys @ replicate (nat C - length ys) zeroTimedValue) - 1"
    using assms by (simp add: len_def)
  show ?thesis
    using k l n
    by (simp add: Add_def AddToHead_def FlushHead_def update_first_zero committed_def)
qed

lemma AddAll_fresh_shape:
  "int (length xs) < C \<Longrightarrow>
   andThen (NewValueRing \<lparr>Length = C, Interval = w\<rparr>) (AddAll F xs)
   = Inr \<lparr>interval = w,
          ring_values = map committed xs @ replicate (nat C - length xs) zeroTimedValue,
          head = int (length xs), aggregator = None, previousDiff = Num 0\<rparr>"
proof (induction xs rule: rev_induct)
  case Nil
  then show ?case by (simp add: andThen_def NewValueRing_def)
next
  case (snoc x xs)
  obtain t v where x: "x = (t, v)" by (cases x)
  from snoc.prems have less: "int (length (map committed xs)) + 1 < C" by simp
  from snoc.prems have "int (length xs) < C" by simp
  from snoc.IH [OF this] obtain r0 where
    r0: "NewValueRing \<lparr>Length = C, Interval = w\<rparr> = Inr (r0 :: 'a ValueRing)" and
    xs: "AddAll F xs r0 = Inr \<lparr>interval = w,
          ring_values = map committed xs @ replicate (nat C - length xs) zeroTimedValue,
          head = int (length xs), aggregator = None, previousDiff = Num 0\<rparr>"
    by (auto simp: andThen_def split: sum.splits)
  show ?case
    using Add_fresh_shape [OF less, of F t v w "Num 0"]
    by (simp add: x r0 xs AddAll_snoc andThen_def)
qed

lemma committed_sel [simp]: "Time (committed s) = fst s" "val (committed s) = snd s"
  by (simp_all add: committed_def)

lemma get_loop_all_recent:
  "i < length vs \<Longrightarrow>
   (\<forall>j\<le>i. val (vs ! j) \<noteq> None \<and> \<not> Time_Before (Time (vs ! j)) b) \<Longrightarrow>
   get_loop vs b (int i) 0 res = Inr (True, vs ! 0)"
proof (induction i arbitrary: res)
  case 0
  then show ?case
    by (simp add: get_loop_step walkRing_def index_def len_def)
next
  case (Suc i)
  from Suc.prems have here: "val (vs ! Suc i) \<noteq> None" "\<not> Time_Before (Time (vs ! Suc i)) b"
    by auto
  from Suc.prems have below: "i < length vs"
    "\<forall>j\<le>i. val (vs ! j) \<noteq> None \<and> \<not> Time_Before (Time (vs ! j)) b"
    by auto
  have walk: "walkRing vs b (int (Suc i)) res = Inr (True, vs ! Suc i)"
    using Suc.prems(1) here by (simp add: walkRing_def index_def len_def nat_add_distrib)
  have "get_loop vs b (int (Suc i)) 0 res = get_loop vs b (int i) 0 (vs ! Suc i)"
    using get_loop_step [of 0 "int (Suc i)" vs b res] walk by simp
  then show ?case using Suc.IH [OF below] by simp
qed

lemma get_fresh_shape:
  assumes ne: "xs \<noteq> []"
    and k: "0 < k"
    and recent: "\<forall>s\<in>set xs. snd s \<noteq> None \<and> \<not> Time_Before (fst s) b"
  shows "get \<lparr>interval = w, ring_values = map committed xs @ replicate k zeroTimedValue,
               head = int (length xs), aggregator = a, previousDiff = p\<rparr> b
         = Inr (committed (hd xs))"
proof -
  let ?vs = "map committed xs @ replicate k zeroTimedValue"
  have all: "\<forall>j\<le>length xs - 1. val (?vs ! j) \<noteq> None \<and> \<not> Time_Before (Time (?vs ! j)) b"
  proof (intro allI impI)
    fix j assume "j \<le> length xs - 1"
    with ne have j: "j < length xs" by (cases xs) auto
    then have "xs ! j \<in> set xs" by simp
    with recent have "snd (xs ! j) \<noteq> None \<and> \<not> Time_Before (fst (xs ! j)) b" by blast
    with j show "val (?vs ! j) \<noteq> None \<and> \<not> Time_Before (Time (?vs ! j)) b"
      by (simp add: nth_append committed_def)
  qed
  have lt: "length xs - 1 < length ?vs" using ne by (cases xs) auto
  have first: "get_loop ?vs b (int (length xs) - 1) 0 zeroTimedValue = Inr (True, ?vs ! 0)"
    using get_loop_all_recent [OF lt all, of zeroTimedValue] ne
    by (cases xs) (simp_all add: of_nat_diff)
  have zero: "?vs ! 0 = committed (hd xs)" using ne by (cases xs) simp_all
  have lastidx: "nat (len ?vs - 1) = length xs + (k - 1)" using k by (simp add: len_def) 
  have "?vs ! nat (len ?vs - 1) = zeroTimedValue"
    unfolding lastidx using k by (simp add: nth_append)
  moreover have "index ?vs (len ?vs - 1) = Inr (?vs ! nat (len ?vs - 1))"
    using k by (simp add: index_def len_def)
  ultimately have "index ?vs (len ?vs - 1) = Inr zeroTimedValue" by simp
  then have "walkRing ?vs b (len ?vs - 1) (committed (hd xs)) = Inr (False, committed (hd xs))"
    by (simp add: walkRing_def zeroTimedValue_def)
  then have second: "get_loop ?vs b (len ?vs - 1) (int (length xs)) (committed (hd xs))
                     = Inr (False, committed (hd xs))"
    using k by (subst get_loop_step) (simp_all add: len_def)
  show ?thesis
    by (simp add: get_def first zero second)
qed

lemma getHead_fresh_shape:
  assumes ne: "xs \<noteq> []"
  shows "getHead \<lparr>interval = w, ring_values = map committed xs @ replicate k zeroTimedValue,
                   head = int (length xs), aggregator = a, previousDiff = p\<rparr>
         = Inr (committed (last xs))"
proof -
  from ne have pos: "0 < length xs" by simp
  then have "(map committed xs @ replicate k zeroTimedValue) ! (length xs - 1)
             = committed (last xs)"
    using ne by (simp add: nth_append last_conv_nth)
  moreover have "nat (int (length xs) - 1) = length xs - 1" by simp
  ultimately show ?thesis
    using pos by (simp add: getHead_def index_def len_def)
qed

lemma getDiffInterval_fresh_shape:
  assumes ne: "xs \<noteq> []"
    and k: "0 < k"
    and hv: "snd (last xs) = Some hv"
    and recent: "\<forall>s\<in>set xs. snd s \<noteq> None \<and>
                   \<not> Time_Before (fst s) (Time_Add (fst (last xs)) (- d))"
  shows "getDiffInterval F
           \<lparr>interval = w, ring_values = map committed xs @ replicate k zeroTimedValue,
            head = int (length xs), aggregator = a, previousDiff = p\<rparr> d
         = (if Time_Sub (fst (last xs)) (fst (hd xs)) = 0 then Inr (Num 0)
            else DiffValue F hv (snd (hd xs)) (Time_Sub (fst (last xs)) (fst (hd xs))))"
proof -
  have prev: "snd (hd xs) \<noteq> None" using ne recent by (cases xs) auto
  show ?thesis
    using prev hv
    by (auto simp: getDiffInterval_def getHead_fresh_shape [OF ne]
        get_fresh_shape [OF ne k recent] Let_def)
qed

subsection \<open>No index panics and the frame of flush\<close>

lemma flush_loop_total:
  "i < len vs \<Longrightarrow> 0 \<le> lo \<Longrightarrow>
   \<exists>b vs'. flush_loop vs i lo = Inr (b, vs') \<and> length vs' = length vs"
proof (induction vs i lo rule: flush_loop.induct)
  case (1 vs i lo)
  show ?case
  proof (cases "lo \<le> i")
    case False
    then show ?thesis by auto
  next
    case True
    with "1.prems" have idx: "index vs i = Inr (vs ! nat i)" by (simp add: index_def)
    show ?thesis
    proof (cases "val (vs ! nat i) = None")
      case True
      with \<open>lo \<le> i\<close> idx show ?thesis by (auto simp: flush_loop_step)
    next
      case False
      have "i - 1 < len (vs[nat i := (vs ! nat i)\<lparr>val := None\<rparr>])"
        using "1.prems" by (simp add: len_def)
      from "1.IH" [OF True idx False this "1.prems"(2)]
      show ?thesis using True idx False by (auto simp: flush_loop_step)
    qed
  qed
qed

lemma flush_loop_length:
  "flush_loop vs i lo = Inr (b, vs') \<Longrightarrow> length vs' = length vs"
proof (induction vs i lo rule: flush_loop.induct)
  case (1 vs i lo)
  show ?case
  proof (cases "lo \<le> i")
    case False
    with "1.prems" show ?thesis by simp
  next
    case True
    show ?thesis
    proof (cases "index vs i")
      case (Inl e)
      with True "1.prems" show ?thesis by (simp add: flush_loop_step)
    next
      case (Inr tv)
      show ?thesis
      proof (cases "val tv = None")
        case True
        with \<open>lo \<le> i\<close> Inr "1.prems" show ?thesis by (simp add: flush_loop_step)
      next
        case False
        with \<open>lo \<le> i\<close> Inr "1.prems"
        have "flush_loop (vs[nat i := tv\<lparr>val := None\<rparr>]) (i - 1) lo = Inr (b, vs')"
          by (simp add: flush_loop_step)
        from "1.IH" [OF True Inr False this] show ?thesis by simp
      qed
    qed
  qed
qed

lemma flush_frame:
  "flush start ring = Inr ring' \<Longrightarrow>
   head ring' = head ring \<and> length (ring_values ring') = length (ring_values ring) \<and>
   interval ring' = interval ring \<and> aggregator ring' = aggregator ring \<and>
   previousDiff ring' = previousDiff ring"
  by (auto simp: flush_def Let_def split: sum.splits prod.splits if_splits
      dest!: flush_loop_length)

lemma flush_total:
  assumes "ring_inv ring"
  shows "\<exists>ring'. flush (head ring - 2) ring = Inr ring'"
proof -
  let ?vs = "ring_values ring"
  let ?start = "if head ring - 2 < 0 then head ring - 2 + len ?vs else head ring - 2"
  from assms have "?start < len ?vs" by (simp add: ring_inv_def)
  from flush_loop_total [OF this, of 0] obtain b vs' where
    one: "flush_loop ?vs ?start 0 = Inr (b, vs')" and l: "length vs' = length ?vs" by auto
  have "len vs' - 1 < len vs'" by simp
  moreover from assms have "0 \<le> head ring" by (simp add: ring_inv_def)
  ultimately obtain b' vs'' where two: "flush_loop vs' (len vs' - 1) (head ring) = Inr (b', vs'')"
    using flush_loop_total by blast
  show ?thesis
    using one two by (simp add: flush_def Let_def)
qed

lemma get_loop_total:
  "i < len vs \<Longrightarrow> 0 \<le> lo \<Longrightarrow> \<exists>b r. get_loop vs bt i lo res = Inr (b, r)"
proof (induction vs bt i lo res rule: get_loop.induct)
  case (1 vs bt i lo res)
  show ?case
  proof (cases "lo \<le> i")
    case False
    then show ?thesis by auto
  next
    case True
    with "1.prems" have idx: "index vs i = Inr (vs ! nat i)" by (simp add: index_def)
    obtain go res' where walk: "walkRing vs bt i res = Inr (go, res')"
      by (cases "walkRing vs bt i res") (auto simp: walkRing_def idx split: if_splits)
    show ?thesis
    proof (cases go)
      case False
      with True walk show ?thesis by (auto simp: get_loop_step)
    next
      case go: True
      have "i - 1 < len vs" using "1.prems" by simp
      from "1.IH" [OF True walk refl _ this "1.prems"(2)] go
      show ?thesis using True walk by (auto simp: get_loop_step)
    qed
  qed
qed

lemma get_total:
  assumes "ring_inv ring"
  shows "\<exists>tv. get ring bt = Inr tv"
proof -
  let ?vs = "ring_values ring"
  from assms have "head ring - 1 < len ?vs" by (simp add: ring_inv_def)
  from get_loop_total [OF this, of 0 bt zeroTimedValue] obtain b r where
    one: "get_loop ?vs bt (head ring - 1) 0 zeroTimedValue = Inr (b, r)" by auto
  have "len ?vs - 1 < len ?vs" by simp
  moreover from assms have "0 \<le> head ring" by (simp add: ring_inv_def)
  ultimately obtain b' r' where two: "get_loop ?vs bt (len ?vs - 1) (head ring) r = Inr (b', r')"
    using get_loop_total by blast
  show ?thesis
    using one two by (simp add: get_def)
qed

lemma getHead_total:
  assumes "ring_inv ring"
  shows "\<exists>tv. getHead ring = Inr tv"
  using assms by (simp add: getHead_def ring_inv_def index_def Let_def)

subsection \<open>The diff of a short history\<close>

lemmas time_defs = Time_Add_def Time_Sub_def Time_Before_def Seconds_def Second_def
  minDuration_def maxDuration_def value_sub_def

lemma short_history_getDiffInterval:
  fixes ss :: "(Time \<times> Value) list"
  assumes fewer: "int (length ss) < C"
    and ne: "ss \<noteq> []"
    and recent: "\<forall>s\<in>set ss. \<not> Time_Before (fst s) (Time_Add (fst (last ss)) (- d))"
  shows "getDiffInterval F
           \<lparr>interval = w,
            ring_values = map committed (map storedSample ss)
                            @ replicate (nat C - length ss) zeroTimedValue,
            head = int (length ss), aggregator = a, previousDiff = p\<rparr> d
         = Inr (if Time_Sub (fst (last ss)) (fst (hd ss)) = 0 then Num 0
                else value_div (value_sub (snd (last ss)) (snd (hd ss)))
                       (Seconds (Time_Sub (fst (last ss)) (fst (hd ss)))))"
proof -
  let ?xs = "map storedSample ss"
  have ne': "?xs \<noteq> []" using ne by simp
  have k: "0 < nat C - length ?xs" using fewer by simp
  have l: "last ?xs = storedSample (last ss)" using ne by (simp add: last_map)
  have h: "hd ?xs = storedSample (hd ss)" using ne by (simp add: hd_map)
  have hv: "snd (last ?xs) = Some (StoredValue (snd (last ss)))"
    by (simp add: l storedSample_def)
  have recent': "\<forall>s\<in>set ?xs. snd s \<noteq> None \<and>
                   \<not> Time_Before (fst s) (Time_Add (fst (last ?xs)) (- d))"
    using recent by (simp add: l storedSample_def)
  show ?thesis
    using getDiffInterval_fresh_shape [OF ne' k hv recent', of F w a p]
    by (simp add: l h storedSample_def)
qed

subsection \<open>Evaluating the scenarios\<close>

lemmas run_defs = overflowRun_def overflowRing_def clobberRun_def shortHistoryRun_def
  GetDiffTwice_def flushOlder_def
  exampleRing_def emptyRing_def oneSampleRing_def noForeign_def storedSample_def

lemmas loop_steps = get_loop_step flush_loop_step eval_nat_numeral

lemma exampleRing_reached:
  "andThen (NewValueRing \<lparr>Length = 3, Interval = Second\<rparr>)
     (AddAll noForeign [(0, scalar 10), (Second, scalar 20)]) = Inr exampleRing"
  by (simp add: run_defs ring_defs eval_nat_numeral)

text \<open>
  With a capacity of 4 the overflow scenario ends as intended: the third diff repeats the
  second, the two older samples are cleared and the head is the sample 5.
\<close>

lemma overflow_recovery_capacity_4:
  "overflowRun 4 =
     Inr (Num 10, Num 10, scalar 5,
          \<lparr>interval = Second,
           ring_values = [\<lparr>Time = 0, val = None\<rparr>, \<lparr>Time = Second, val = None\<rparr>,
                          \<lparr>Time = 2 * Second, val = scalar 5\<rparr>, zeroTimedValue],
           head = 3, aggregator = None, previousDiff = Num 10\<rparr>)"
  by (simp add: run_defs ring_defs loop_steps)

subsection \<open>What GetDiff reads and writes\<close>

lemma getHead_previousDiff: "getHead (ring\<lparr>previousDiff := x\<rparr>) = getHead ring"
  by (simp add: getHead_def)

lemma get_previousDiff: "get (ring\<lparr>previousDiff := x\<rparr>) b = get ring b"
  by (simp add: get_def cong: sum.case_cong prod.case_cong if_cong)

lemma getDiffInterval_previousDiff:
  "getDiffInterval F (ring\<lparr>previousDiff := x\<rparr>) d = getDiffInterval F ring d"
  by (simp add: getDiffInterval_def getHead_previousDiff get_previousDiff
      cong: sum.case_cong option.case_cong)

lemma GetDiff_nonnegative:
  "getDiffInterval F ring (interval ring) = Inr v \<Longrightarrow> \<not> value_negative v \<Longrightarrow>
   GetDiff F ring = Inr (v, ring\<lparr>previousDiff := v\<rparr>)"
  by (simp add: GetDiff_def)

subsection \<open>The head stays an index of the storage\<close>

lemma NewValueRing_inv:
  assumes "1 \<le> Length factory"
  shows "\<exists>ring0 :: 'a ValueRing. NewValueRing factory = Inr ring0 \<and> head ring0 = 0 \<and>
           len (ring_values ring0) = Length factory \<and> ring_inv ring0"
  using assms by (simp add: NewValueRing_def ring_inv_def len_def)

lemma FlushHead_inv:
  assumes "ring_inv ring"
  shows "\<exists>ring'. FlushHead now ring = Inr ring' \<and>
           head ring' = (head ring + 1) mod len (ring_values ring) \<and>
           len (ring_values ring') = len (ring_values ring) \<and> ring_inv ring' \<and>
           index (ring_values ring') (head ring) = Inr \<lparr>Time = now, val = aggregator ring\<rparr>"
proof -
  from assms have slot: "nat (head ring) < length (ring_values ring)"
    unfolding ring_inv_def len_def by linarith
  have written: "index ((ring_values ring)[nat (head ring) := \<lparr>Time = now, val = aggregator ring\<rparr>])
                   (head ring) = Inr \<lparr>Time = now, val = aggregator ring\<rparr>"
    using assms slot by (simp add: index_def ring_inv_def len_def)
  have same: "len ((ring_values ring)[nat (head ring) := \<lparr>Time = now, val = aggregator ring\<rparr>])
                = len (ring_values ring)"
    by (simp add: len_def)
  show ?thesis
  proof (cases "head ring \<ge> len (ring_values ring) - 1")
    case True
    with assms have "head ring + 1 = len (ring_values ring)" by (simp add: ring_inv_def)
    then have "(head ring + 1) mod len (ring_values ring) = 0" by simp
    with True assms written same show ?thesis
      by (simp add: FlushHead_def ring_inv_def)
  next
    case False
    with assms have "(head ring + 1) mod len (ring_values ring) = head ring + 1"
      by (simp add: ring_inv_def)
    with False assms written same show ?thesis
      by (simp add: FlushHead_def ring_inv_def)
  qed
qed

lemma AddToHead_frame:
  "AddToHead F v ring = Inr ring' \<Longrightarrow>
   head ring' = head ring \<and> ring_values ring' = ring_values ring"
  by (auto simp: AddToHead_def split: option.splits sum.splits)

lemma Add_inv:
  assumes "ring_inv ring" and "Add F now v ring = Inr ring'"
  shows "head ring' = (head ring + 1) mod len (ring_values ring) \<and>
         len (ring_values ring') = len (ring_values ring) \<and> ring_inv ring'"
proof -
  from assms(2) obtain r1 where a: "AddToHead F v ring = Inr r1" and f: "FlushHead now r1 = Inr ring'"
    by (auto simp: Add_def split: sum.splits)
  from AddToHead_frame [OF a] assms(1) have "ring_inv r1" by (simp add: ring_inv_def)
  from FlushHead_inv [OF this, of now] f AddToHead_frame [OF a] show ?thesis by auto
qed

lemma Increment_inv:
  assumes "ring_inv ring" and "Increment F now v ring = Inr ring'"
  shows "head ring' = (head ring + 1) mod len (ring_values ring) \<and>
         len (ring_values ring') = len (ring_values ring) \<and> ring_inv ring'"
proof -
  from assms(2) obtain v' where "Add F now v' ring = Inr ring'"
    by (auto simp: Increment_def split: sum.splits option.splits)
  from Add_inv [OF assms(1) this] show ?thesis .
qed

lemma flush_inv:
  assumes "ring_inv ring" and "flush start ring = Inr ring'"
  shows "head ring' = head ring \<and> len (ring_values ring') = len (ring_values ring) \<and>
         ring_inv ring'"
  using flush_frame [OF assms(2)] assms(1) by (simp add: ring_inv_def len_def)

lemma GetDiff_inv:
  assumes "ring_inv ring" and "GetDiff F ring = Inr (d, ring')"
  shows "head ring' = head ring \<and> len (ring_values ring') = len (ring_values ring) \<and>
         ring_inv ring'"
proof -
  from assms(2) have "flush (head ring - 2) ring = Inr ring' \<or>
                      (\<exists>v. ring' = ring\<lparr>previousDiff := v\<rparr>)"
    by (auto simp: GetDiff_def split: sum.splits if_splits)
  then show ?thesis
  proof
    assume "flush (head ring - 2) ring = Inr ring'"
    from flush_inv [OF assms(1) this] show ?thesis .
  next
    assume "\<exists>v. ring' = ring\<lparr>previousDiff := v\<rparr>"
    with assms(1) show ?thesis by (auto simp: ring_inv_def)
  qed
qed

lemma GetHead_inv:
  assumes "ring_inv ring"
  shows "\<exists>h. GetHead ring = Inr (h, ring)"
  using getHead_total [OF assms] by (auto simp: GetHead_def)

subsection \<open>The backward search finds a value once the head has one\<close>

lemma walkRing_keeps:
  assumes "walkRing vs b i res = Inr (go_on, res')" and "val res \<noteq> None"
  shows "val res' \<noteq> None"
  using assms by (auto simp: walkRing_def split: sum.splits if_splits)

lemma walkRing_value:
  assumes "walkRing vs b i res = Inr (go_on, res')" and "index vs i = Inr tv"
    and "val tv \<noteq> None"
  shows "val res' \<noteq> None"
  using assms by (auto simp: walkRing_def split: if_splits)

lemma get_loop_keeps:
  "get_loop vs b i lo res = Inr (finished, r) \<Longrightarrow> val res \<noteq> None \<Longrightarrow> val r \<noteq> None"
proof (induction vs b i lo res rule: get_loop.induct)
  case (1 vs b i lo res)
  show ?case
  proof (cases "lo \<le> i")
    case False
    with "1.prems" show ?thesis by simp
  next
    case True
    from True "1.prems"(1) obtain go_on res' where
      walk: "walkRing vs b i res = Inr (go_on, res')"
      by (cases "walkRing vs b i res") (auto simp: get_loop_step)
    from walkRing_keeps [OF walk "1.prems"(2)] have res': "val res' \<noteq> None" .
    show ?thesis
    proof (cases go_on)
      case False
      with True walk "1.prems"(1) have "r = res'" by (simp add: get_loop_step)
      with res' show ?thesis by simp
    next
      case go: True
      with True walk "1.prems"(1) have "get_loop vs b (i - 1) lo res' = Inr (finished, r)"
        by (simp add: get_loop_step)
      from "1.IH" [OF True walk refl _ this res'] go show ?thesis by simp
    qed
  qed
qed

lemma get_loop_value:
  assumes loop: "get_loop vs b i lo res = Inr (finished, r)"
    and range: "lo \<le> i"
    and slot: "index vs i = Inr tv" "val tv \<noteq> None"
  shows "val r \<noteq> None"
proof -
  from range loop obtain go_on res' where walk: "walkRing vs b i res = Inr (go_on, res')"
    by (cases "walkRing vs b i res") (auto simp: get_loop_step)
  from walkRing_value [OF walk slot] have res': "val res' \<noteq> None" .
  show ?thesis
  proof (cases go_on)
    case False
    with range walk loop have "r = res'" by (simp add: get_loop_step)
    with res' show ?thesis by simp
  next
    case True
    with range walk loop have "get_loop vs b (i - 1) lo res' = Inr (finished, r)"
      by (simp add: get_loop_step)
    from get_loop_keeps [OF this res'] show ?thesis .
  qed
qed

lemma get_has_value:
  assumes h: "getHead ring = Inr h" "val h \<noteq> None" and p: "get ring b = Inr p"
  shows "val p \<noteq> None"
proof (cases "head ring \<le> 0")
  case True
  let ?vs = "ring_values ring"
  from True h(1) have slot: "index ?vs (len ?vs - 1) = Inr h"
    by (simp add: getHead_def)
  then have range: "head ring \<le> len ?vs - 1"
    using True by (auto simp: index_def split: if_splits)
  from True have first: "get_loop ?vs b (head ring - 1) 0 zeroTimedValue
                         = Inr (True, zeroTimedValue)" by simp
  from p first obtain finished where
    second: "get_loop ?vs b (len ?vs - 1) (head ring) zeroTimedValue = Inr (finished, p)"
    by (auto simp: get_def split: sum.splits)
  from get_loop_value [OF second range slot h(2)] show ?thesis .
next
  case False
  let ?vs = "ring_values ring"
  from False h(1) have slot: "index ?vs (head ring - 1) = Inr h"
    by (simp add: getHead_def)
  from False have range: "0 \<le> head ring - 1" by simp
  from p obtain finished res where
    first: "get_loop ?vs b (head ring - 1) 0 zeroTimedValue = Inr (finished, res)"
    by (auto simp: get_def split: sum.splits)
  from get_loop_value [OF first range slot h(2)] have res: "val res \<noteq> None" .
  show ?thesis
  proof (cases finished)
    case False
    with p first have "p = res" by (simp add: get_def)
    with res show ?thesis by simp
  next
    case True
    with p first obtain finished' where
      "get_loop ?vs b (len ?vs - 1) (head ring) res = Inr (finished', p)"
      by (auto simp: get_def split: sum.splits)
    from get_loop_keeps [OF this res] show ?thesis .
  qed
qed

subsection \<open>The example rings\<close>

lemma exampleRing_inv: "ring_inv exampleRing"
  by (simp add: ring_inv_def exampleRing_def len_def)

lemma exampleRing_diff: "getDiffInterval noForeign exampleRing Second = Inr (Num 10)"
  by (simp add: run_defs ring_defs loop_steps)

lemma emptyRing_reached:
  "NewValueRing \<lparr>Length = 3, Interval = Second\<rparr> = Inr emptyRing"
  by (simp add: emptyRing_def NewValueRing_def eval_nat_numeral)

lemma oneSampleRing_reached:
  "Add noForeign 0 (scalar 10) emptyRing = Inr oneSampleRing"
  by (simp add: emptyRing_def oneSampleRing_def ring_defs)

section \<open>The claims\<close>

text \<open>
  C1 (overflow recovery), at a capacity of 3. After the samples 10, 20 and 5 the third call
  of \<^verbatim>\<open>GetDiff\<close> returns the diff of the second call, 10, as the claim says. But the head
  has wrapped to 0, \<^verbatim>\<open>flush\<close> clears the newest sample with the older ones, and the
  following \<^verbatim>\<open>GetHead\<close> returns nil instead of the sample 5.
\<close>

theorem overflow_recovery_capacity_3:
  "overflowRun 3 =
     Inr (Num 10, Num 10, None,
          \<lparr>interval = Second,
           ring_values = [\<lparr>Time = 0, val = None\<rparr>, \<lparr>Time = Second, val = None\<rparr>,
                          \<lparr>Time = 2 * Second, val = None\<rparr>],
           head = 0, aggregator = None, previousDiff = Num 10\<rparr>)"
  by (simp add: run_defs ring_defs loop_steps)

text \<open>
  C3 (flush postcondition), at the wrapped positions of the head. On a full ring of
  capacity 3, \<^verbatim>\<open>flush(head - 2)\<close> leaves no sample at all, the newest included, both when
  the head is 0 (three samples written) and when it is 1 (four samples written).
\<close>

theorem flush_clears_newest:
  "andThen (andThen (NewValueRing \<lparr>Length = 3, Interval = Second\<rparr>)
              (AddAll noForeign [(0, scalar 10), (Second, scalar 20), (2 * Second, scalar 5)]))
     flushOlder
   = Inr \<lparr>interval = Second,
          ring_values = [\<lparr>Time = 0, val = None\<rparr>, \<lparr>Time = Second, val = None\<rparr>,
                         \<lparr>Time = 2 * Second, val = None\<rparr>],
          head = 0, aggregator = None, previousDiff = Num 0\<rparr>
   \<and>
   andThen (andThen (NewValueRing \<lparr>Length = 3, Interval = Second\<rparr>)
              (AddAll noForeign [(0, scalar 10), (Second, scalar 20), (2 * Second, scalar 30),
                                 (3 * Second, scalar 5)]))
     flushOlder
   = Inr \<lparr>interval = Second,
          ring_values = [\<lparr>Time = 3 * Second, val = None\<rparr>, \<lparr>Time = Second, val = None\<rparr>,
                         \<lparr>Time = 2 * Second, val = None\<rparr>],
          head = 1, aggregator = None, previousDiff = Num 0\<rparr>"
  by (simp add: run_defs ring_defs loop_steps)

text \<open>
  C7 (wraparound retention). On a new ring of capacity 3, after five scalar values added
  in turn, whatever the values, the times and the window, the storage holds exactly the
  fourth, the fifth and the third value, in the slots 0, 1 and 2, and \<^verbatim>\<open>GetHead\<close> returns
  the fifth.
\<close>

theorem wraparound_retention:
  "andThen (andThen (NewValueRing \<lparr>Length = 3, Interval = w\<rparr>)
      (AddAll F [(t1, Some (StoredValue v1)), (t2, Some (StoredValue v2)),
                 (t3, Some (StoredValue v3)), (t4, Some (StoredValue v4)),
                 (t5, Some (StoredValue v5))]))
      GetHead
   = Inr (Some (StoredValue v5),
          \<lparr>interval = w,
           ring_values = [\<lparr>Time = t4, val = Some (StoredValue v4)\<rparr>,
                          \<lparr>Time = t5, val = Some (StoredValue v5)\<rparr>,
                          \<lparr>Time = t3, val = Some (StoredValue v3)\<rparr>],
           head = 2, aggregator = None, previousDiff = Num 0\<rparr>)"
  by (simp add: ring_defs eval_nat_numeral)

text \<open>
  C9 (mismatched variants). For every scalar \<open>v\<close>, every value \<open>x\<close> of another
  implementation of \<^verbatim>\<open>LogbackValue\<close> and every interval, \<^verbatim>\<open>DiffValue\<close> returns 0 and
  \<^verbatim>\<open>AddValue\<close> returns the scalar 0, called directly or through the interface; neither
  panics. The same holds for the nil interface.
\<close>

theorem mismatched_variant_neutral:
  "StoredValue_DiffValue v (Some (Foreign x)) d = Inr (Num 0) \<and>
   StoredValue_AddValue v (Some (Foreign x)) = Inr (StoredValue (Num 0)) \<and>
   DiffValue F (StoredValue v) (Some (Foreign x)) d = Inr (Num 0) \<and>
   AddValue F (StoredValue v) (Some (Foreign x)) = Inr (StoredValue (Num 0)) \<and>
   StoredValue_DiffValue v None d = Inr (Num 0) \<and>
   StoredValue_AddValue v None = Inr (StoredValue (Num 0))"
  by simp

text \<open>
  C2 (insufficient history), as the claim states it, fails: on a new ring of capacity 3 and
  window 2s, after the samples 100 at 0s and 150 at 1s (fewer commits than the capacity, no
  sample older than the head minus the window), \<^verbatim>\<open>GetDiff\<close> returns 50 and not 0.
\<close>

theorem short_history_nonzero:
  "andThen (andThen (NewValueRing \<lparr>Length = 3, Interval = 2 * Second\<rparr>)
              (AddAll noForeign [(0, scalar 100), (Second, scalar 150)]))
     (GetDiff noForeign)
   = Inr (Num 50,
          \<lparr>interval = 2 * Second,
           ring_values = [\<lparr>Time = 0, val = scalar 100\<rparr>, \<lparr>Time = Second, val = scalar 150\<rparr>,
                          zeroTimedValue],
           head = 2, aggregator = None, previousDiff = Num 50\<rparr>)"
  by (simp add: run_defs ring_defs loop_steps)

text \<open>
  C2 as amended. On a new ring of capacity \<open>C\<close>, after fewer than \<open>C\<close> scalar samples of
  which none is older than the newest minus the window, the backward search ends at the
  oldest sample: the diff computed is 0 when the ring is empty or when the newest and the
  oldest sample have the same time (a single sample in particular), and otherwise the
  difference of the newest and the oldest value divided by the seconds between them.
  \<^verbatim>\<open>GetDiff\<close> returns it, or 0, the initial previous diff, when it is negative.
\<close>

theorem short_history_rate:
  fixes ss :: "(Time \<times> Value) list"
  assumes fewer: "int (length ss) < C"
    and recent: "\<forall>s\<in>set ss. \<not> Time_Before (fst s) (Time_Add (fst (last ss)) (- w))"
  shows "\<exists>ring. andThen (NewValueRing \<lparr>Length = C, Interval = w\<rparr>)
                   (AddAll F (map storedSample ss)) = Inr ring \<and>
           (let q = (if ss = [] \<or> Time_Sub (fst (last ss)) (fst (hd ss)) = 0 then Num 0
                     else value_div (value_sub (snd (last ss)) (snd (hd ss)))
                            (Seconds (Time_Sub (fst (last ss)) (fst (hd ss)))))
            in getDiffInterval F ring (interval ring) = Inr q \<and>
               (\<exists>ring'. GetDiff F ring = Inr (if value_negative q then Num 0 else q, ring')))"
proof -
  let ?ring = "\<lparr>interval = w,
            ring_values = map committed (map storedSample ss)
                            @ replicate (nat C - length ss) zeroTimedValue,
            head = int (length ss), aggregator = None, previousDiff = Num 0\<rparr> :: 'a ValueRing"
  let ?q = "if ss = [] \<or> Time_Sub (fst (last ss)) (fst (hd ss)) = 0 then Num 0
            else value_div (value_sub (snd (last ss)) (snd (hd ss)))
                   (Seconds (Time_Sub (fst (last ss)) (fst (hd ss))))"
  have shape: "andThen (NewValueRing \<lparr>Length = C, Interval = w\<rparr>)
                 (AddAll F (map storedSample ss)) = Inr ?ring"
    using AddAll_fresh_shape [of "map storedSample ss" C w F] fewer by simp
  have inv: "ring_inv ?ring" using fewer by (simp add: ring_inv_def len_def)
  have diff: "getDiffInterval F ?ring (interval ?ring) = Inr ?q"
  proof (cases "ss = []")
    case True
    have "0 < nat C" using fewer by simp
    then have "replicate (nat C) (zeroTimedValue :: 'a TimedValue) ! nat (int (nat C) - 1)
               = zeroTimedValue" by simp
    with True fewer show ?thesis
      by (simp add: getDiffInterval_def getHead_def index_def len_def zeroTimedValue_def)
  next
    case False
    with short_history_getDiffInterval [OF fewer False recent, of F w None "Num 0"]
    show ?thesis by simp
  qed
  from flush_total [OF inv] obtain fl where fl: "flush (head ?ring - 2) ?ring = Inr fl" by blast
  have "\<exists>ring'. GetDiff F ?ring = Inr (if value_negative ?q then Num 0 else ?q, ring')"
    using diff fl by (simp add: GetDiff_def)
  with shape diff show ?thesis by (simp add: Let_def)
qed

theorem short_history_rate_witness:
  "int (length [(0, Num 100), (Second, Num 150)]) < 3 \<and>
   (\<exists>ring. andThen (NewValueRing \<lparr>Length = 3, Interval = 2 * Second\<rparr>)
            (AddAll noForeign (map storedSample [(0, Num 100), (Second, Num 150)])) = Inr ring \<and>
          getDiffInterval noForeign ring (interval ring) = Inr (Num 50) \<and>
          (\<exists>ring'. GetDiff noForeign ring = Inr (Num 50, ring')))"
  using short_history_rate [of "[(0, Num 100), (Second, Num 150)]" 3 "2 * Second" noForeign]
  by (simp add: time_defs Let_def)

text \<open>
  C4 (rate correctness). On a new ring of any capacity of at least 3 and window 2s, after
  the samples 100 at 0s, 150 at 1s and 200 at 2s, \<^verbatim>\<open>GetDiff\<close> returns 50 and stores it as the
  previous diff.
\<close>

theorem rate_correctness:
  assumes "3 \<le> C"
  shows "\<exists>ring. andThen (NewValueRing \<lparr>Length = C, Interval = 2 * Second\<rparr>)
                   (AddAll F [(0, scalar 100), (Second, scalar 150), (2 * Second, scalar 200)])
                 = Inr ring \<and>
                GetDiff F ring = Inr (Num 50, ring\<lparr>previousDiff := Num 50\<rparr>)"
proof (cases "C = 3")
  case True
  then show ?thesis
    by (simp add: ring_defs loop_steps)
next
  case False
  let ?ss = "[(0, Num 100), (Second, Num 150), (2 * Second, Num 200)] :: (Time \<times> Value) list"
  let ?ring = "\<lparr>interval = 2 * Second,
            ring_values = map committed (map storedSample ?ss)
                            @ replicate (nat C - length ?ss) zeroTimedValue,
            head = int (length ?ss), aggregator = None, previousDiff = Num 0\<rparr> :: 'a ValueRing"
  from False assms have fewer: "int (length ?ss) < C" by simp
  have recent: "\<forall>s\<in>set ?ss. \<not> Time_Before (fst s) (Time_Add (fst (last ?ss)) (- (2 * Second)))"
    by (simp add: time_defs)
  have samples: "map storedSample ?ss
                 = [(0, scalar 100), (Second, scalar 150), (2 * Second, scalar 200)]"
    by (simp add: storedSample_def scalar_def)
  have shape: "andThen (NewValueRing \<lparr>Length = C, Interval = 2 * Second\<rparr>)
                 (AddAll F (map storedSample ?ss)) = Inr ?ring"
    using AddAll_fresh_shape [of "map storedSample ?ss" C "2 * Second" F] fewer by simp
  have "getDiffInterval F ?ring (2 * Second) = Inr (Num 50)"
    using short_history_getDiffInterval [OF fewer _ recent, of F "2 * Second" None "Num 0"]
    by (simp add: time_defs)
  then have "GetDiff F ?ring = Inr (Num 50, ?ring\<lparr>previousDiff := Num 50\<rparr>)"
    by (simp add: GetDiff_def)
  with shape show ?thesis unfolding samples by blast
qed

theorem rate_correctness_witness:
  "(3::int) \<le> 3 \<and>
   (\<exists>ring. andThen (NewValueRing \<lparr>Length = 3, Interval = 2 * Second\<rparr>)
             (AddAll noForeign [(0, scalar 100), (Second, scalar 150), (2 * Second, scalar 200)])
           = Inr ring \<and>
          GetDiff noForeign ring = Inr (Num 50, ring\<lparr>previousDiff := Num 50\<rparr>))"
  using rate_correctness [of 3 noForeign] by simp

text \<open>
  C5 (idempotence of reads), as the claim states it, fails in the overflow case: in the
  overflow scenario on a ring of capacity 6, the call of \<^verbatim>\<open>GetDiff\<close> after the sample 5
  returns the previous diff 10 and flushes the older samples; the next call, with no
  \<^verbatim>\<open>FlushHead\<close> in between, finds the newest sample alone and returns 0.
\<close>

theorem reread_after_overflow:
  "andThen (overflowRing 6) (GetDiffTwice noForeign) = Inr (Num 10, Num 0)"
  by (simp add: run_defs ring_defs loop_steps)

text \<open>
  C5 as amended. In every ring state a call of \<^verbatim>\<open>GetHead\<close> that returns leaves the ring
  as it is, so a second call returns the same value. When the diff that \<^verbatim>\<open>GetDiff\<close>
  computes is not negative, two calls in a row return that same diff, and the second
  leaves the ring as the first left it.
\<close>

theorem reads_idempotent:
  "(GetHead ring = Inr (h, ring') \<longrightarrow> GetHead ring' = Inr (h, ring')) \<and>
   (getDiffInterval F ring (interval ring) = Inr v \<and> \<not> value_negative v \<longrightarrow>
      (\<exists>ring''. GetDiff F ring = Inr (v, ring'') \<and> GetDiff F ring'' = Inr (v, ring'') \<and>
                 GetDiffTwice F ring = Inr (v, v)))"
proof (intro conjI impI)
  assume "GetHead ring = Inr (h, ring')"
  then show "GetHead ring' = Inr (h, ring')"
    by (auto simp: GetHead_def split: sum.splits)
next
  assume a: "getDiffInterval F ring (interval ring) = Inr v \<and> \<not> value_negative v"
  let ?r = "ring\<lparr>previousDiff := v\<rparr>"
  from a have one: "GetDiff F ring = Inr (v, ?r)" by (simp add: GetDiff_nonnegative)
  from a have "getDiffInterval F ?r (interval ?r) = Inr v"
    by (simp add: getDiffInterval_previousDiff)
  with a have two: "GetDiff F ?r = Inr (v, ?r)" by (simp add: GetDiff_def)
  from one two have "GetDiffTwice F ring = Inr (v, v)"
    by (simp add: GetDiffTwice_def andThen_def)
  with one two
  show "\<exists>ring''. GetDiff F ring = Inr (v, ring'') \<and> GetDiff F ring'' = Inr (v, ring'') \<and>
                 GetDiffTwice F ring = Inr (v, v)"
    by blast
qed

theorem reads_idempotent_witness:
  "GetHead exampleRing = Inr (scalar 20, exampleRing) \<and>
   getDiffInterval noForeign exampleRing (interval exampleRing) = Inr (Num 10) \<and>
   \<not> value_negative (Num 10) \<and>
   GetDiffTwice noForeign exampleRing = Inr (Num 10, Num 10)"
proof -
  have h: "GetHead exampleRing = Inr (scalar 20, exampleRing)"
    by (simp add: exampleRing_def ring_defs)
  have d: "getDiffInterval noForeign exampleRing (interval exampleRing) = Inr (Num 10)"
    using exampleRing_diff by (simp add: exampleRing_def)
  from reads_idempotent [of exampleRing "scalar 20" exampleRing noForeign "Num 10"] h d
  show ?thesis by auto
qed

text \<open>
  C6 (zero-interval guard), as the claim states it, fails for the difference operation
  itself: \<^verbatim>\<open>DiffValue\<close> of the scalars 1 and 0 with the interval 0 is the float division
  \<open>1 / 0\<close>, positive infinity, and not 0.
\<close>

theorem DiffValue_zero_interval:
  "StoredValue_DiffValue (Num 1) (Some (StoredValue (Num 0)) :: unit LogbackValue option) 0
   = Inr PosInf"
  by (simp add: ring_defs)

text \<open>
  C6 as amended. \<^verbatim>\<open>DiffValue\<close> has no guard of its own: with the interval 0 the scalar
  difference is NaN for equal values and an infinity otherwise. The guard is in
  \<^verbatim>\<open>getDiffInterval\<close>: it returns 0 without calling \<^verbatim>\<open>DiffValue\<close> when the head and
  the sample found have the same time, so whenever it calls \<^verbatim>\<open>DiffValue\<close> the interval
  is not 0 and the divisor \<^verbatim>\<open>interval.Seconds()\<close> is not zero.
\<close>

theorem zero_interval_guard:
  "StoredValue_DiffValue (Num a) (Some (StoredValue (Num b))) 0
     = Inr (if a = b then NaN else if b < a then PosInf else NegInf) \<and>
   getDiffInterval F ring d =
     (case diffCall ring d of
        Inl e \<Rightarrow> Inl e
      | Inr None \<Rightarrow> Inr (Num 0)
      | Inr (Some (hv, pv, i)) \<Rightarrow> DiffValue F hv pv i) \<and>
   (diffCall ring d = Inr (Some (hv, pv, i)) \<longrightarrow> i \<noteq> 0 \<and> Seconds i \<noteq> Num 0)"
proof -
  have direct: "StoredValue_DiffValue (Num a) (Some (StoredValue (Num b))) 0
     = Inr (if a = b then NaN else if b < a then PosInf else NegInf)"
    by (simp add: Seconds_def value_sub_def)
  have call: "getDiffInterval F ring d =
     (case diffCall ring d of
        Inl e \<Rightarrow> Inl e
      | Inr None \<Rightarrow> Inr (Num 0)
      | Inr (Some (hv, pv, i)) \<Rightarrow> DiffValue F hv pv i)"
    by (simp add: getDiffInterval_def diffCall_def Let_def split: sum.splits option.splits)
  have nonzero: "i \<noteq> 0 \<and> Seconds i \<noteq> Num 0" if "diffCall ring d = Inr (Some (hv, pv, i))"
  proof -
    from that have "i \<noteq> 0"
      by (auto simp: diffCall_def Let_def split: sum.splits option.splits if_splits)
    then show ?thesis by (simp add: Seconds_def)
  qed
  from direct call nonzero show ?thesis by blast
qed

theorem zero_interval_guard_witness:
  "diffCall exampleRing Second
     = Inr (Some (StoredValue (Num 20), Some (StoredValue (Num 10)), Second)) \<and>
   Second \<noteq> 0 \<and> Seconds Second \<noteq> Num 0"
proof -
  have c: "diffCall exampleRing Second
     = Inr (Some (StoredValue (Num 20), Some (StoredValue (Num 10)), Second))"
    by (simp add: diffCall_def run_defs ring_defs loop_steps)
  from zero_interval_guard [of 1 0 noForeign exampleRing Second "StoredValue (Num 20)"
      "Some (StoredValue (Num 10))" Second] c
  show ?thesis by simp
qed

text \<open>
  C8 (head index invariant). A new ring of capacity at least 1 has the head 0, an index
  of its storage. On a ring whose head is an index of its storage, \<^verbatim>\<open>FlushHead\<close> returns,
  writes the slot at the head and advances the head to \<open>(head + 1) mod capacity\<close>, again
  an index; so do \<^verbatim>\<open>Add\<close> and \<^verbatim>\<open>Increment\<close>, which call it, when they return.
  \<^verbatim>\<open>AddToHead\<close>, \<^verbatim>\<open>GetDiff\<close>, \<^verbatim>\<open>GetHead\<close> and \<^verbatim>\<open>flush\<close> leave the head and the capacity as
  they are; \<^verbatim>\<open>GetHead\<close> and the \<^verbatim>\<open>flush\<close> of the overflow recovery never index out of
  range.
\<close>

theorem head_index_invariant:
  "(1 \<le> Length factory \<longrightarrow>
      (\<exists>ring0 :: 'a ValueRing. NewValueRing factory = Inr ring0 \<and> head ring0 = 0 \<and>
           len (ring_values ring0) = Length factory \<and> ring_inv ring0)) \<and>
   (ring_inv ring \<longrightarrow>
      (\<exists>ring'. FlushHead now ring = Inr ring' \<and>
           head ring' = (head ring + 1) mod len (ring_values ring) \<and>
           len (ring_values ring') = len (ring_values ring) \<and> ring_inv ring' \<and>
           index (ring_values ring') (head ring) = Inr \<lparr>Time = now, val = aggregator ring\<rparr>) \<and>
      (\<forall>ring'. AddToHead F v ring = Inr ring' \<longrightarrow>
           head ring' = head ring \<and> ring_values ring' = ring_values ring \<and> ring_inv ring') \<and>
      (\<forall>ring'. Add F now v ring = Inr ring' \<longrightarrow>
           head ring' = (head ring + 1) mod len (ring_values ring) \<and>
           len (ring_values ring') = len (ring_values ring) \<and> ring_inv ring') \<and>
      (\<forall>ring'. Increment F now v ring = Inr ring' \<longrightarrow>
           head ring' = (head ring + 1) mod len (ring_values ring) \<and>
           len (ring_values ring') = len (ring_values ring) \<and> ring_inv ring') \<and>
      (\<forall>d ring'. GetDiff F ring = Inr (d, ring') \<longrightarrow>
           head ring' = head ring \<and> len (ring_values ring') = len (ring_values ring) \<and>
           ring_inv ring') \<and>
      (\<exists>h. GetHead ring = Inr (h, ring)) \<and>
      (\<forall>start ring'. flush start ring = Inr ring' \<longrightarrow>
           head ring' = head ring \<and> len (ring_values ring') = len (ring_values ring) \<and>
           ring_inv ring') \<and>
      (\<exists>ring'. flushOlder ring = Inr ring'))"
proof (intro conjI impI allI)
  assume "1 \<le> Length factory"
  then show "\<exists>ring0 :: 'a ValueRing. NewValueRing factory = Inr ring0 \<and> head ring0 = 0 \<and>
           len (ring_values ring0) = Length factory \<and> ring_inv ring0"
    by (rule NewValueRing_inv)
next
  assume "ring_inv ring"
  then show "\<exists>ring'. FlushHead now ring = Inr ring' \<and>
           head ring' = (head ring + 1) mod len (ring_values ring) \<and>
           len (ring_values ring') = len (ring_values ring) \<and> ring_inv ring' \<and>
           index (ring_values ring') (head ring) = Inr \<lparr>Time = now, val = aggregator ring\<rparr>"
    by (rule FlushHead_inv)
next
  fix ring' assume inv: "ring_inv ring" and add: "AddToHead F v ring = Inr ring'"
  from AddToHead_frame [OF add] inv
  show "head ring' = head ring" "ring_values ring' = ring_values ring" "ring_inv ring'"
    by (simp_all add: ring_inv_def)
next
  fix ring' assume "ring_inv ring" "Add F now v ring = Inr ring'"
  then show "head ring' = (head ring + 1) mod len (ring_values ring)"
    "len (ring_values ring') = len (ring_values ring)" "ring_inv ring'"
    using Add_inv by blast+
next
  fix ring' assume "ring_inv ring" "Increment F now v ring = Inr ring'"
  then show "head ring' = (head ring + 1) mod len (ring_values ring)"
    "len (ring_values ring') = len (ring_values ring)" "ring_inv ring'"
    using Increment_inv by blast+
next
  fix d ring' assume "ring_inv ring" "GetDiff F ring = Inr (d, ring')"
  then show "head ring' = head ring"
    "len (ring_values ring') = len (ring_values ring)" "ring_inv ring'"
    using GetDiff_inv by blast+
next
  assume "ring_inv ring"
  then show "\<exists>h. GetHead ring = Inr (h, ring)" by (rule GetHead_inv)
next
  fix start ring' assume "ring_inv ring" "flush start ring = Inr ring'"
  then show "head ring' = head ring"
    "len (ring_values ring') = len (ring_values ring)" "ring_inv ring'"
    using flush_inv by blast+
next
  assume "ring_inv ring"
  then show "\<exists>ring'. flushOlder ring = Inr ring'"
    unfolding flushOlder_def by (rule flush_total)
qed

theorem head_index_invariant_witness:
  "1 \<le> Length \<lparr>Length = 3, Interval = Second\<rparr> \<and> ring_inv exampleRing \<and>
   (\<exists>ring0 :: unit ValueRing. NewValueRing \<lparr>Length = 3, Interval = Second\<rparr> = Inr ring0 \<and>
        head ring0 = 0 \<and> ring_inv ring0) \<and>
   (\<exists>ring'. FlushHead (2 * Second) exampleRing = Inr ring' \<and> head ring' = 0 \<and> ring_inv ring') \<and>
   (\<exists>h. GetHead exampleRing = Inr (h, exampleRing)) \<and>
   (\<exists>ring'. flushOlder exampleRing = Inr ring')"
proof -
  have f: "1 \<le> Length \<lparr>Length = 3, Interval = Second\<rparr>" by simp
  have m: "(head exampleRing + 1) mod len (ring_values exampleRing) = 0"
    by (simp add: exampleRing_def len_def)
  from head_index_invariant [of "\<lparr>Length = 3, Interval = Second\<rparr>" exampleRing "2 * Second"
      noForeign "scalar 5"] f exampleRing_inv m
  show ?thesis by auto
qed

text \<open>
  C10 (the last good diff is overwritten), as the claim states it, fails for the
  insufficient-history case: that query does not return 0. In the short-history scenario
  on a ring of capacity 6 the first call of \<^verbatim>\<open>GetDiff\<close>, with no sample older than the head
  minus the window, returns the rate 50 against the oldest sample, and the overflow after
  it falls back to 50 and not to 0.
\<close>

theorem short_history_fallback:
  "shortHistoryRun 6 = Inr (Num 50, Num 50)"
  by (simp add: run_defs ring_defs loop_steps)

text \<open>
  C10 as amended. Whenever the diff that \<^verbatim>\<open>GetDiff\<close> computes is not negative, \<^verbatim>\<open>GetDiff\<close>
  returns it and stores it as the previous diff. That includes the 0 of an empty ring and
  the 0 returned when the sample found has the time of the head. It does not include a 0
  for insufficient history: once the head has a value the backward search always returns
  a sample with a value, so the branch for a missing previous sample is never taken, and
  a query on a short history stores the rate against the oldest sample. So a negative
  diff after an empty-ring or zero-elapsed query falls back to 0: in the overflow
  scenario on a ring of capacity 6 the diffs are 10 on the overflow, 0 on the next call,
  which finds one sample only, and, after the sample 1 at 3s, 0 on the second overflow,
  where the last rate computed was 10. A negative diff after a query on a short history
  falls back to that query's rate: 50 and 50 in the short-history scenario.
\<close>

theorem last_good_diff_clobbered:
  "(getDiffInterval F ring (interval ring) = Inr v \<and> \<not> value_negative v \<longrightarrow>
      GetDiff F ring = Inr (v, ring\<lparr>previousDiff := v\<rparr>)) \<and>
   (getHead ring = Inr h \<and> val h = None \<longrightarrow>
      GetDiff F ring = Inr (Num 0, ring\<lparr>previousDiff := Num 0\<rparr>)) \<and>
   (getHead ring = Inr h \<and> val h \<noteq> None \<and>
    get ring (Time_Add (Time h) (- interval ring)) = Inr p \<longrightarrow>
      val p \<noteq> None) \<and>
   (getHead ring = Inr h \<and> val h \<noteq> None \<and>
    get ring (Time_Add (Time h) (- interval ring)) = Inr p \<and>
    Time_Sub (Time h) (Time p) = 0 \<longrightarrow>
      GetDiff F ring = Inr (Num 0, ring\<lparr>previousDiff := Num 0\<rparr>)) \<and>
   clobberRun 6 = Inr (Num 10, Num 0, Num 0) \<and>
   shortHistoryRun 6 = Inr (Num 50, Num 50)"
proof -
  have general: "GetDiff F ring = Inr (v, ring\<lparr>previousDiff := v\<rparr>)"
    if "getDiffInterval F ring (interval ring) = Inr v \<and> \<not> value_negative v"
    using that by (simp add: GetDiff_nonnegative)
  have empty: "GetDiff F ring = Inr (Num 0, ring\<lparr>previousDiff := Num 0\<rparr>)"
    if "getHead ring = Inr h \<and> val h = None"
  proof -
    from that have "getDiffInterval F ring (interval ring) = Inr (Num 0)"
      by (simp add: getDiffInterval_def)
    then show ?thesis by (simp add: GetDiff_nonnegative)
  qed
  have found: "val p \<noteq> None"
    if "getHead ring = Inr h \<and> val h \<noteq> None \<and>
        get ring (Time_Add (Time h) (- interval ring)) = Inr p"
    using that get_has_value by blast
  have elapsed: "GetDiff F ring = Inr (Num 0, ring\<lparr>previousDiff := Num 0\<rparr>)"
    if "getHead ring = Inr h \<and> val h \<noteq> None \<and>
        get ring (Time_Add (Time h) (- interval ring)) = Inr p \<and>
        Time_Sub (Time h) (Time p) = 0"
  proof -
    from that have "getDiffInterval F ring (interval ring) = Inr (Num 0)"
      by (auto simp: getDiffInterval_def Let_def)
    then show ?thesis by (simp add: GetDiff_nonnegative)
  qed
  have run: "clobberRun 6 = Inr (Num 10, Num 0, Num 0)"
    by (simp add: run_defs ring_defs loop_steps)
  have run': "shortHistoryRun 6 = Inr (Num 50, Num 50)"
    by (simp add: run_defs ring_defs loop_steps)
  from general empty found elapsed run run' show ?thesis by blast
qed

theorem last_good_diff_clobbered_witness:
  "GetDiff noForeign exampleRing = Inr (Num 10, exampleRing\<lparr>previousDiff := Num 10\<rparr>) \<and>
   GetDiff noForeign emptyRing = Inr (Num 0, emptyRing\<lparr>previousDiff := Num 0\<rparr>) \<and>
   getHead oneSampleRing = Inr \<lparr>Time = 0, val = scalar 10\<rparr> \<and>
   get oneSampleRing (Time_Add 0 (- interval oneSampleRing))
     = Inr \<lparr>Time = 0, val = scalar 10\<rparr> \<and>
   val \<lparr>Time = 0, val = scalar 10 :: unit LogbackValue option\<rparr> \<noteq> None \<and>
   GetDiff noForeign oneSampleRing = Inr (Num 0, oneSampleRing\<lparr>previousDiff := Num 0\<rparr>)"
proof -
  have d: "getDiffInterval noForeign exampleRing (interval exampleRing) = Inr (Num 10)"
    using exampleRing_diff by (simp add: exampleRing_def)
  have e: "getHead emptyRing = Inr zeroTimedValue" "val (zeroTimedValue :: unit TimedValue) = None"
    by (simp_all add: emptyRing_def getHead_def index_def len_def zeroTimedValue_def)
  have h: "getHead oneSampleRing = Inr \<lparr>Time = 0, val = scalar 10\<rparr>"
    by (simp add: oneSampleRing_def getHead_def index_def len_def)
  have g: "get oneSampleRing (Time_Add 0 (- interval oneSampleRing))
           = Inr \<lparr>Time = 0, val = scalar 10\<rparr>"
    by (simp add: oneSampleRing_def ring_defs loop_steps)
  have z: "Time_Sub 0 0 = 0" by (simp add: time_defs)
  from last_good_diff_clobbered [of noForeign exampleRing "Num 10"] d
  have one: "GetDiff noForeign exampleRing = Inr (Num 10, exampleRing\<lparr>previousDiff := Num 10\<rparr>)"
    by simp
  from last_good_diff_clobbered [of noForeign emptyRing _ zeroTimedValue] e
  have two: "GetDiff noForeign emptyRing = Inr (Num 0, emptyRing\<lparr>previousDiff := Num 0\<rparr>)"
    by simp
  from last_good_diff_clobbered [of noForeign oneSampleRing _ "\<lparr>Time = 0, val = scalar 10\<rparr>"
      "\<lparr>Time = 0, val = scalar 10\<rparr>"] h g z
  have three: "val \<lparr>Time = 0, val = scalar 10 :: unit LogbackValue option\<rparr> \<noteq> None \<and>
               GetDiff noForeign oneSampleRing
               = Inr (Num 0, oneSampleRing\<lparr>previousDiff := Num 0\<rparr>)"
    by (simp add: scalar_def)
  from one two three h g show ?thesis by simp
qed

end
